theory Spec2Isabelle
  imports Complex_Main "HOL-Library.Char_ord" "HOL-Library.List_Lexorder"
begin

section \<open>Data model of the attestation routes (src/routes/attestations.ts)\<close>

text \<open>
  \<^verbatim>\<open>status?: 'submitted' | 'revoked'\<close> and \<^verbatim>\<open>revokedAt?: string | null\<close>:
  an optional field is an \<open>option\<close> (\<open>None\<close> is \<^verbatim>\<open>undefined\<close>), and
  \<^verbatim>\<open>null\<close> is a value of its own.
\<close>

datatype attestationStatus = Submitted | Revoked

datatype 'a nullable = Null | Value 'a

record RouteAttestation =
  id' :: string
  businessId :: string
  period :: string
  attestedAt :: string
  merkleRoot :: "string option"
  timestamp :: "int option"
  version :: "string option"
  txHash :: "string option"
  status :: "attestationStatus option"
  revokedAt :: "string nullable option"

record SubmitAttestationParams =
  p_business :: string
  p_period :: string
  p_merkleRoot :: string
  p_timestamp :: int
  p_version :: string

text \<open>
  What a handler can end with instead of a response: an error made by
  \<^verbatim>\<open>createHttpError(status, code, message)\<close>, or whatever a collaborator's
  promise rejected with (\<^verbatim>\<open>asyncHandler\<close> hands both to \<^verbatim>\<open>next\<close>).
\<close>

datatype failure = HttpError nat string string | Rejected string

definition createHttpError :: "nat \<Rightarrow> string \<Rightarrow> string \<Rightarrow> failure" where
  "createHttpError st code msg = HttpError st code msg"

text \<open>
  \<^verbatim>\<open>attestationRepository\<close> is probed at run time for the methods it has
  (\<^verbatim>\<open>typeof repo.create === 'function'\<close>): each capability is present or not,
  and a present one is a function that may reject.
\<close>

record attestationRepository =
  repo_listByBusiness :: "(string \<Rightarrow> failure + RouteAttestation list) option"
  repo_list :: "(string \<Rightarrow> failure + RouteAttestation list) option"
  repo_getById :: "(string \<Rightarrow> failure + RouteAttestation option) option"
  repo_create :: "(RouteAttestation \<Rightarrow> failure + RouteAttestation) option"
  repo_revoke :: "(string \<Rightarrow> string option \<Rightarrow> failure + RouteAttestation option) option"

text \<open>src/repositories/business.ts: the business records and \<^verbatim>\<open>findByUserId\<close>.\<close>

record Business =
  b_id :: string
  b_userId :: string
  b_name :: string
  b_email :: string
  b_industry :: "string option"
  b_description :: "string option"
  b_website :: "string option"
  b_createdAt :: string

definition findByUserId :: "Business list \<Rightarrow> string \<Rightarrow> Business option" where
  "findByUserId businesses uid = find (\<lambda>b. b_userId b = uid) businesses"

text \<open>
  \<^verbatim>\<open>resolveBusinessIdForUser\<close>: \<^verbatim>\<open>businessRepository\<close> has no
  \<^verbatim>\<open>getByUserId\<close>, so the \<^verbatim>\<open>findByUserId\<close> branch is the one that runs.
\<close>

definition resolveBusinessIdForUser :: "Business list \<Rightarrow> string \<Rightarrow> string option" where
  "resolveBusinessIdForUser businesses uid = map_option b_id (findByUserId businesses uid)"

text \<open>JavaScript truthiness of a \<^verbatim>\<open>string | null | undefined\<close>.\<close>

definition truthy :: "string option \<Rightarrow> bool" where
  "truthy v = (case v of None \<Rightarrow> False | Some s \<Rightarrow> s \<noteq> [])"

section \<open>listByBusinessId\<close>

text \<open>
  \<^verbatim>\<open>Map.prototype.set\<close>: a key that is present keeps its place and gets the new
  value; a new key goes last. \<^verbatim>\<open>deduped.values()\<close> iterates in that order.
\<close>

fun mapSet :: "'k \<Rightarrow> 'v \<Rightarrow> ('k \<times> 'v) list \<Rightarrow> ('k \<times> 'v) list" where
  "mapSet k v [] = [(k, v)]"
| "mapSet k v ((k', v') # m) = (if k' = k then (k', v) # m else (k', v') # mapSet k v m)"

definition dedupe :: "RouteAttestation list \<Rightarrow> RouteAttestation list" where
  "dedupe merged = map snd (foldl (\<lambda>deduped item. mapSet (id' item) item deduped) [] merged)"

text \<open>
  \<^verbatim>\<open>Array.prototype.sort(compareFn)\<close> is a stable sort: \<open>a\<close> stays before \<open>b\<close>
  unless \<open>compareFn(a, b) > 0\<close>. For a consistent comparator every stable sort gives
  the same array; it is written here as insertion from the right.
\<close>

fun insertSorted :: "('a \<Rightarrow> 'a \<Rightarrow> int) \<Rightarrow> 'a \<Rightarrow> 'a list \<Rightarrow> 'a list" where
  "insertSorted cmp x [] = [x]"
| "insertSorted cmp x (y # ys) =
     (if cmp x y \<le> 0 then x # y # ys else y # insertSorted cmp x ys)"

definition sortArray :: "('a \<Rightarrow> 'a \<Rightarrow> int) \<Rightarrow> 'a list \<Rightarrow> 'a list" where
  "sortArray cmp xs = foldr (insertSorted cmp) xs []"

text \<open>
  What the language requires of a comparator for the sorted order to be defined; the
  collation behind \<^verbatim>\<open>localeCompare\<close> is one.
\<close>

definition consistentComparator :: "(string \<Rightarrow> string \<Rightarrow> int) \<Rightarrow> bool" where
  "consistentComparator lc =
     ((\<forall>a. lc a a = 0) \<and> (\<forall>a b. lc a b \<le> 0 \<or> lc b a \<le> 0) \<and>
      (\<forall>a b c. lc a b \<le> 0 \<longrightarrow> lc b c \<le> 0 \<longrightarrow> lc a c \<le> 0))"

definition repositoryItemsOf ::
  "attestationRepository \<Rightarrow> string \<Rightarrow> failure + RouteAttestation list" where
  "repositoryItemsOf repo bId =
     (case repo_listByBusiness repo of
        Some f \<Rightarrow> f bId
      | None \<Rightarrow> (case repo_list repo of Some g \<Rightarrow> g bId | None \<Rightarrow> Inr []))"

text \<open>
  \<open>localeCompare\<close> is the platform's \<^verbatim>\<open>String.prototype.localeCompare\<close>, a
  parameter of the model.
\<close>

definition mergeSorted ::
  "(string \<Rightarrow> string \<Rightarrow> int) \<Rightarrow> RouteAttestation list \<Rightarrow> RouteAttestation list \<Rightarrow> string
     \<Rightarrow> RouteAttestation list" where
  "mergeSorted localeCompare repositoryItems localAttestationStore bId =
     (let localItems = filter (\<lambda>item. businessId item = bId) localAttestationStore;
          merged = repositoryItems @ localItems
      in sortArray (\<lambda>a b. localeCompare (attestedAt b) (attestedAt a)) (dedupe merged))"

definition listByBusinessId ::
  "(string \<Rightarrow> string \<Rightarrow> int) \<Rightarrow> attestationRepository \<Rightarrow> RouteAttestation list \<Rightarrow> string
     \<Rightarrow> failure + RouteAttestation list" where
  "listByBusinessId localeCompare repo localAttestationStore bId =
     (case repositoryItemsOf repo bId of
        Inl e \<Rightarrow> Inl e
      | Inr repositoryItems \<Rightarrow>
          Inr (mergeSorted localeCompare repositoryItems localAttestationStore bId))"

section \<open>GET /: filtering and pagination\<close>

text \<open>
  The query after \<^verbatim>\<open>validateQuery(listQuerySchema)\<close>: \<open>page\<close> and \<open>limit\<close> are
  integers, \<open>page \<ge> 1\<close> and \<open>1 \<le> limit \<le> 100\<close>.
\<close>

record ListQuery =
  q_businessId :: "string option"
  q_period :: "string option"
  q_status :: "attestationStatus option"
  q_page :: nat
  q_limit :: nat

definition listQuerySchema :: "ListQuery \<Rightarrow> bool" where
  "listQuerySchema q =
     ((case q_businessId q of None \<Rightarrow> True | Some s \<Rightarrow> 1 \<le> length s) \<and>
      (case q_period q of None \<Rightarrow> True | Some s \<Rightarrow> 1 \<le> length s) \<and>
      1 \<le> q_page q \<and> 1 \<le> q_limit q \<and> q_limit q \<le> 100)"

record ListResponse =
  l_httpStatus :: nat
  l_data :: "RouteAttestation list"
  l_page :: nat
  l_limit :: nat
  l_total :: nat
  l_totalPages :: nat

definition keepItem :: "ListQuery \<Rightarrow> RouteAttestation \<Rightarrow> bool" where
  "keepItem q item =
     (if truthy (q_period q) \<and> Some (period item) \<noteq> q_period q then False
      else if q_status q \<noteq> None \<and>
              Some (case status item of None \<Rightarrow> Submitted | Some s \<Rightarrow> s) \<noteq> q_status q
           then False
      else True)"

text \<open>\<^verbatim>\<open>Array.prototype.slice(start, end)\<close> for \<open>0 \<le> start \<le> end\<close>.\<close>

definition slice :: "'a list \<Rightarrow> nat \<Rightarrow> nat \<Rightarrow> 'a list" where
  "slice xs start end = take (end - start) (drop start xs)"

text \<open>
  \<^verbatim>\<open>Math.max(1, Math.ceil(total / query.limit))\<close>. An array has fewer than
  \<open>2^32\<close> elements and \<open>limit \<le> 100\<close>, so the double division and the
  ceiling are those of the rationals.
\<close>

definition totalPagesOf :: "nat \<Rightarrow> nat \<Rightarrow> nat" where
  "totalPagesOf totalCount perPage = max 1 (nat \<lceil>real totalCount / real perPage\<rceil>)"

definition paginate :: "ListQuery \<Rightarrow> RouteAttestation list \<Rightarrow> ListResponse" where
  "paginate q filtered =
     (let totalCount = length filtered;
          totalPages = totalPagesOf totalCount (q_limit q);
          start = (q_page q - 1) * q_limit q;
          items = slice filtered start (start + q_limit q)
      in \<lparr>l_httpStatus = 200, l_data = items, l_page = q_page q, l_limit = q_limit q,
          l_total = totalCount, l_totalPages = totalPages\<rparr>)"

definition queryBusinessId :: "ListQuery \<Rightarrow> Business list \<Rightarrow> string \<Rightarrow> string option" where
  "queryBusinessId q businesses userId =
     (case q_businessId q of
        Some b \<Rightarrow> Some b
      | None \<Rightarrow> resolveBusinessIdForUser businesses userId)"

definition listHandler ::
  "(string \<Rightarrow> string \<Rightarrow> int) \<Rightarrow> attestationRepository \<Rightarrow> Business list \<Rightarrow> RouteAttestation list
     \<Rightarrow> string \<Rightarrow> ListQuery \<Rightarrow> failure + ListResponse" where
  "listHandler localeCompare repo businesses localAttestationStore userId q =
     (let bId = queryBusinessId q businesses userId
      in if \<not> truthy bId
         then Inl (createHttpError 404 ''BUSINESS_NOT_FOUND'' ''Business not found for user'')
         else (case listByBusinessId localeCompare repo localAttestationStore (the bId) of
                 Inl e \<Rightarrow> Inl e
               | Inr allItems \<Rightarrow> Inr (paginate q (filter (keepItem q) allItems))))"

section \<open>getById and GET /:id\<close>

definition getById ::
  "(string \<Rightarrow> string \<Rightarrow> int) \<Rightarrow> attestationRepository \<Rightarrow> RouteAttestation list \<Rightarrow> string
     \<Rightarrow> string \<Rightarrow> failure + RouteAttestation option" where
  "getById localeCompare repo localAttestationStore i bId =
     (case repo_getById repo of
        Some g \<Rightarrow>
          (case g i of
             Inl e \<Rightarrow> Inl e
           | Inr found \<Rightarrow>
               (case found of
                  None \<Rightarrow> Inr None
                | Some r \<Rightarrow> if businessId r \<noteq> bId then Inr None else Inr (Some r)))
      | None \<Rightarrow>
          (case listByBusinessId localeCompare repo localAttestationStore bId of
             Inl e \<Rightarrow> Inl e
           | Inr items \<Rightarrow> Inr (find (\<lambda>item. id' item = i) items)))"

definition parseIdParam :: "string \<Rightarrow> failure + string" where
  "parseIdParam i =
     (if length i < 1 then Inl (createHttpError 400 ''VALIDATION_ERROR'' ''Invalid attestation id'')
      else Inr i)"

record RecordResponse =
  r_httpStatus :: nat
  r_data :: RouteAttestation

definition getHandler ::
  "(string \<Rightarrow> string \<Rightarrow> int) \<Rightarrow> attestationRepository \<Rightarrow> Business list \<Rightarrow> RouteAttestation list
     \<Rightarrow> string \<Rightarrow> string \<Rightarrow> failure + RecordResponse" where
  "getHandler localeCompare repo businesses localAttestationStore userId idParam =
     (case parseIdParam idParam of
        Inl e \<Rightarrow> Inl e
      | Inr i \<Rightarrow>
          let bId = resolveBusinessIdForUser businesses userId
          in if \<not> truthy bId
             then Inl (createHttpError 404 ''BUSINESS_NOT_FOUND'' ''Business not found for user'')
             else (case getById localeCompare repo localAttestationStore i (the bId) of
                     Inl e \<Rightarrow> Inl e
                   | Inr None \<Rightarrow>
                       Inl (createHttpError 404 ''ATTESTATION_NOT_FOUND'' ''Attestation not found'')
                   | Inr (Some attestation) \<Rightarrow>
                       Inr \<lparr>r_httpStatus = 200, r_data = attestation\<rparr>))"

section \<open>saveAttestation and revokeAttestation\<close>

text \<open>
  Both return the new \<^verbatim>\<open>localAttestationStore\<close> next to their result.
  \<open>saveAttestation\<close> also returns the records it handed to \<^verbatim>\<open>repo.create\<close>.
\<close>

definition saveAttestation ::
  "attestationRepository \<Rightarrow> RouteAttestation list \<Rightarrow> RouteAttestation
     \<Rightarrow> (failure + RouteAttestation) \<times> RouteAttestation list \<times> RouteAttestation list" where
  "saveAttestation repo localAttestationStore record =
     (case repo_create repo of
        Some c \<Rightarrow> (c record, localAttestationStore, [record])
      | None \<Rightarrow> (Inr record, localAttestationStore @ [record], []))"




section \<open>submitOnChain and POST /\<close>

record SubmitAttestationResult =
  res_txHash :: string

text \<open>
  What \<^verbatim>\<open>await import(modulePath)\<close> can give: the import throws, the module
  has no function \<^verbatim>\<open>submitAttestation\<close>, or it has one, which resolves or rejects.
\<close>

datatype chainModule =
  ImportFails
| NoSubmitAttestation
| SubmitAttestation "SubmitAttestationParams \<Rightarrow> failure + SubmitAttestationResult"

text \<open>
  The values the handler reads from its environment, one per call site:
  \<^verbatim>\<open>randomUUID()\<close> in \<open>submitOnChain\<close> and for the record's id,
  \<^verbatim>\<open>Date.now()\<close> for the anchoring parameters and for the record, and
  \<^verbatim>\<open>new Date().toISOString()\<close>.
\<close>

record SubmitEnv =
  pendingUuid :: string
  idUuid :: string
  dateNowAnchor :: int
  dateNowRecord :: int
  nowIso :: string

text \<open>
  \<open>submitOnChain\<close> returns its result and the calls it made to the module's
  \<^verbatim>\<open>submitAttestation\<close>. Whatever is thrown inside the \<^verbatim>\<open>try\<close> is caught.
\<close>

definition submitOnChain ::
  "chainModule \<Rightarrow> string \<Rightarrow> SubmitAttestationParams
     \<Rightarrow> SubmitAttestationResult \<times> SubmitAttestationParams list" where
  "submitOnChain chain uuid params =
     (case chain of
        SubmitAttestation f \<Rightarrow>
          (case f params of
             Inr r \<Rightarrow> (r, [params])
           | Inl e \<Rightarrow> (\<lparr>res_txHash = ''pending_'' @ uuid\<rparr>, [params]))
      | NoSubmitAttestation \<Rightarrow> (\<lparr>res_txHash = ''pending_'' @ uuid\<rparr>, [])
      | ImportFails \<Rightarrow> (\<lparr>res_txHash = ''pending_'' @ uuid\<rparr>, []))"

text \<open>The body after \<^verbatim>\<open>validateBody(submitBodySchema)\<close>.\<close>

record SubmitBody =
  sb_businessId :: "string option"
  sb_period :: string
  sb_merkleRoot :: string
  sb_timestamp :: "int option"
  sb_version :: string

definition submitBodySchema :: "SubmitBody \<Rightarrow> bool" where
  "submitBodySchema body =
     ((case sb_businessId body of None \<Rightarrow> True | Some s \<Rightarrow> 1 \<le> length s) \<and>
      1 \<le> length (sb_period body) \<and> 1 \<le> length (sb_merkleRoot body) \<and>
      (case sb_timestamp body of None \<Rightarrow> True | Some t \<Rightarrow> 0 \<le> t) \<and>
      1 \<le> length (sb_version body))"

record SubmitResponse =
  s_httpStatus :: nat
  s_data :: RouteAttestation
  s_txHash :: string

text \<open>The two checks of the handler before it anchors: 404 and 403.\<close>

definition resolveSubmitBusiness :: "Business list \<Rightarrow> string \<Rightarrow> SubmitBody \<Rightarrow> failure + string" where
  "resolveSubmitBusiness businesses userId payload =
     (let userBusinessId = resolveBusinessIdForUser businesses userId;
          bId = (case sb_businessId payload of Some b \<Rightarrow> Some b | None \<Rightarrow> userBusinessId)
      in if \<not> truthy bId
         then Inl (createHttpError 404 ''BUSINESS_NOT_FOUND'' ''Business not found for user'')
         else if truthy (sb_businessId payload) \<and> truthy userBusinessId \<and>
                 sb_businessId payload \<noteq> userBusinessId
         then Inl (createHttpError 403 ''FORBIDDEN''
                     ''Cannot submit attestation for another business'')
         else Inr (the bId))"

definition anchorParams :: "string \<Rightarrow> SubmitBody \<Rightarrow> SubmitEnv \<Rightarrow> SubmitAttestationParams" where
  "anchorParams bId payload env =
     \<lparr>p_business = bId, p_period = sb_period payload, p_merkleRoot = sb_merkleRoot payload,
      p_timestamp = (case sb_timestamp payload of Some t \<Rightarrow> t | None \<Rightarrow> dateNowAnchor env),
      p_version = sb_version payload\<rparr>"

definition newRecord :: "string \<Rightarrow> SubmitBody \<Rightarrow> SubmitEnv \<Rightarrow> string \<Rightarrow> RouteAttestation" where
  "newRecord bId payload env onChainTxHash =
     \<lparr>id' = idUuid env, businessId = bId, period = sb_period payload, attestedAt = nowIso env,
      merkleRoot = Some (sb_merkleRoot payload),
      timestamp = Some (case sb_timestamp payload of Some t \<Rightarrow> t | None \<Rightarrow> dateNowRecord env),
      version = Some (sb_version payload), txHash = Some onChainTxHash,
      status = Some Submitted, revokedAt = Some Null\<rparr>"

text \<open>
  The state the POST handler works on: the in-memory store, and the calls made so far to
  the two collaborators it writes to (the anchoring function and \<^verbatim>\<open>repo.create\<close>).
\<close>

record world =
  localAttestationStore :: "RouteAttestation list"
  anchorCalls :: "SubmitAttestationParams list"
  createCalls :: "RouteAttestation list"

definition submitHandler ::
  "attestationRepository \<Rightarrow> chainModule \<Rightarrow> Business list \<Rightarrow> SubmitEnv \<Rightarrow> world
     \<Rightarrow> string \<Rightarrow> SubmitBody \<Rightarrow> (failure + SubmitResponse) \<times> world" where
  "submitHandler repo chain businesses env w userId payload =
     (case resolveSubmitBusiness businesses userId payload of
        Inl e \<Rightarrow> (Inl e, w)
      | Inr bId \<Rightarrow>
          (case submitOnChain chain (pendingUuid env) (anchorParams bId payload env) of
             (onChain, anchored) \<Rightarrow>
               (case saveAttestation repo (localAttestationStore w)
                       (newRecord bId payload env (res_txHash onChain)) of
                  (saved, store', created) \<Rightarrow>
                    let w' = \<lparr>localAttestationStore = store',
                              anchorCalls = anchorCalls w @ anchored,
                              createCalls = createCalls w @ created\<rparr>
                    in (case saved of
                          Inl e \<Rightarrow> (Inl e, w')
                        | Inr savedRecord \<Rightarrow>
                            (Inr \<lparr>s_httpStatus = 201, s_data = savedRecord,
                                  s_txHash = res_txHash onChain\<rparr>, w')))))"

section \<open>The idempotency guard\<close>

text \<open>
  Modelled from the spec: \<^verbatim>\<open>idempotencyMiddleware\<close> of src/middleware/idempotency,
  which POST / is wrapped in with scope \<open>attestations\<close> and which is not among the
  sources. The spec's words are followed: an entry \<open>{scope, key, cachedResult, expiry}\<close>
  is created on the first execution under a key and read on later attempts with the same
  key. The spec gives the entry an expiry and no rule that reads it, so the guard records
  it and looks entries up by scope and key. Requests are taken one after the other.
\<close>

record IdempotencyEntry =
  e_scope :: string
  e_key :: string
  e_cachedResult :: "failure + SubmitResponse"
  e_expiry :: int

text \<open>Modelled from the spec: an entry is read by scope and key (the guard is not among the sources).\<close>

definition lookupEntry :: "IdempotencyEntry list \<Rightarrow> string \<Rightarrow> string \<Rightarrow> IdempotencyEntry option" where
  "lookupEntry entries scope key = find (\<lambda>e. e_scope e = scope \<and> e_key e = key) entries"

text \<open>
  Modelled from the spec: the guard around the POST handler (src/middleware/idempotency is
  missing). A key that has an entry gets the cached result and nothing runs; a new key
  runs the handler and caches what it ended with.
\<close>

definition idempotentSubmit ::
  "attestationRepository \<Rightarrow> chainModule \<Rightarrow> Business list \<Rightarrow> SubmitEnv \<Rightarrow> int
     \<Rightarrow> IdempotencyEntry list \<times> world \<Rightarrow> string \<Rightarrow> string \<Rightarrow> SubmitBody
     \<Rightarrow> (failure + SubmitResponse) \<times> IdempotencyEntry list \<times> world" where
  "idempotentSubmit repo chain businesses env ttl state key userId payload =
     (case state of
        (entries, w) \<Rightarrow>
          (case lookupEntry entries ''attestations'' key of
             Some e \<Rightarrow> (e_cachedResult e, entries, w)
           | None \<Rightarrow>
               (case submitHandler repo chain businesses env w userId payload of
                  (result, w') \<Rightarrow>
                    (result,
                     entries @ [\<lparr>e_scope = ''attestations'', e_key = key,
                                 e_cachedResult = result,
                                 e_expiry = dateNowRecord env + ttl\<rparr>],
                     w'))))"

text \<open>The number of records a world holds: those pushed to the in-memory store and those handed to \<^verbatim>\<open>repo.create\<close>.\<close>

definition storedRecords :: "world \<Rightarrow> nat" where
  "storedRecords w = length (localAttestationStore w) + length (createCalls w)"

section \<open>The Merkle tree\<close>

text \<open>
  Modelled from the spec: the hash function and the class \<^verbatim>\<open>MerkleTree\<close> of
  src/services/merkle, of which only the test is among the sources. From section 4.1 of
  the spec: a leaf digest is \<open>Hash(leafDomainTag || leaf)\<close>, an inner digest is
  \<open>Hash(nodeDomainTag || left || right)\<close>, and the last node of a level with an odd
  number of nodes is carried up unchanged. The digest function and the two tags are
  parameters.
\<close>

record HashFunction =
  digest :: "string \<Rightarrow> string"
  leafDomainTag :: string
  nodeDomainTag :: string

text \<open>Modelled from the spec: the leaf and node digests of the missing src/services/merkle.\<close>

definition hashLeaf :: "HashFunction \<Rightarrow> string \<Rightarrow> string" where
  "hashLeaf h leaf = digest h (leafDomainTag h @ leaf)"

definition hashNode :: "HashFunction \<Rightarrow> string \<Rightarrow> string \<Rightarrow> string" where
  "hashNode h leftChild rightChild = digest h (nodeDomainTag h @ leftChild @ rightChild)"

text \<open>
  Modelled from the spec: one level of \<^verbatim>\<open>Build\<close> (src/services/merkle is missing):
  neighbours are hashed left then right, an unmatched last node goes up as it is.
\<close>

fun nextLevel :: "HashFunction \<Rightarrow> string list \<Rightarrow> string list" where
  "nextLevel h (l # r # rest) = hashNode h l r # nextLevel h rest"
| "nextLevel h [unmatched] = [unmatched]"
| "nextLevel h [] = []"

text \<open>Modelled from the spec: the levels of the tree, leaf digests first, root level last.\<close>

function buildLevels :: "HashFunction \<Rightarrow> string list \<Rightarrow> string list list" where
  "buildLevels h level =
     (if length level \<le> 1 then [level] else level # buildLevels h (nextLevel h level))"
  by pat_completeness auto
termination
proof (relation "measure (\<lambda>(h, level). length level)")
  show "wf (measure (\<lambda>(h, level). length level))" by simp
next
  fix h :: HashFunction and level :: "string list"
  assume "\<not> length level \<le> 1"
  moreover have "length (nextLevel h xs) = (length xs + 1) div 2" for xs
    by (induction h xs rule: nextLevel.induct) simp_all
  ultimately show "((h, nextLevel h level), (h, level)) \<in> measure (\<lambda>(h, level). length level)"
    by simp
qed

declare buildLevels.simps [simp del]

datatype merkleError = EmptyInputError | IndexOutOfRangeError

record MerkleTree =
  leafCount :: nat
  levels :: "string list list"

text \<open>
  Modelled from the spec: \<^verbatim>\<open>Build\<close> of the missing src/services/merkle, which fails
  with \<open>EmptyInputError\<close> on no leaves.
\<close>

definition Build :: "HashFunction \<Rightarrow> string list \<Rightarrow> merkleError + MerkleTree" where
  "Build h leaves =
     (if leaves = [] then Inl EmptyInputError
      else Inr \<lparr>leafCount = length leaves, levels = buildLevels h (map (hashLeaf h) leaves)\<rparr>)"

text \<open>
  Modelled from the spec: \<^verbatim>\<open>getRoot\<close> of the missing src/services/merkle. The top
  level of a built tree has one digest.
\<close>

definition getRoot :: "MerkleTree \<Rightarrow> string" where
  "getRoot t = (case last (levels t) of [r] \<Rightarrow> r | _ \<Rightarrow> [])"

text \<open>
  Modelled from the spec: the proof of the missing src/services/merkle.
  A proof has one element for every level below the root, so that its length is the height
  of the tree, as section 3 of the spec has it: the sibling digest with the side it
  stands on, or, at a level where the path node is the unmatched last node, the note that
  the node is carried up.
\<close>

datatype position = OnLeft | OnRight

datatype proofElement = Sibling string position | Unmatched

text \<open>Modelled from the spec: the proof elements along the path of an index, leaf level first.\<close>

fun proofPath :: "string list list \<Rightarrow> nat \<Rightarrow> proofElement list" where
  "proofPath [] index = []"
| "proofPath (level # upper) index =
     (if odd index then Sibling (level ! (index - 1)) OnLeft
      else if index + 1 < length level then Sibling (level ! (index + 1)) OnRight
      else Unmatched) # proofPath upper (index div 2)"

text \<open>
  Modelled from the spec: \<^verbatim>\<open>getProof\<close> of the missing src/services/merkle, which fails
  with \<open>IndexOutOfRangeError\<close> for an index that is no leaf's.
\<close>

definition getProof :: "MerkleTree \<Rightarrow> nat \<Rightarrow> merkleError + proofElement list" where
  "getProof t index =
     (if leafCount t \<le> index then Inl IndexOutOfRangeError
      else Inr (proofPath (butlast (levels t)) index))"

text \<open>
  Modelled from the spec: one step of the fold of \<^verbatim>\<open>verifyProof\<close>, in the
  concatenation order of the construction.
\<close>

fun foldStep :: "HashFunction \<Rightarrow> string \<Rightarrow> proofElement \<Rightarrow> string" where
  "foldStep h d (Sibling s OnLeft) = hashNode h s d"
| "foldStep h d (Sibling s OnRight) = hashNode h d s"
| "foldStep h d Unmatched = d"

text \<open>
  Modelled from the spec: \<^verbatim>\<open>verifyProof\<close> of the missing src/services/merkle.
  \<open>verifyProof\<close> returns false for an index outside the range a proof of that length
  can address, and otherwise folds the proof from the leaf digest and compares with the
  root.
\<close>

definition verifyProof :: "HashFunction \<Rightarrow> string \<Rightarrow> proofElement list \<Rightarrow> string \<Rightarrow> nat \<Rightarrow> bool" where
  "verifyProof h leaf steps rootDigest index =
     (if 2 ^ length steps \<le> index then False
      else foldl (foldStep h) (hashLeaf h leaf) steps = rootDigest)"

section \<open>Example data\<close>

text \<open>The two businesses that src/repositories/business.ts starts with.\<close>

definition seedBusinesses :: "Business list" where
  "seedBusinesses =
     [\<lparr>b_id = ''biz_1'', b_userId = ''user_1'', b_name = ''Business 1'',
       b_email = ''business1@example.com'', b_industry = None, b_description = None,
       b_website = None, b_createdAt = ''2025-10-01T12:00:00.000Z''\<rparr>,
      \<lparr>b_id = ''biz_2'', b_userId = ''user_2'', b_name = ''Business 2'',
       b_email = ''business2@example.com'', b_industry = None, b_description = None,
       b_website = None, b_createdAt = ''2025-10-01T12:00:00.000Z''\<rparr>]"

definition mkAttestation ::
  "string \<Rightarrow> string \<Rightarrow> string \<Rightarrow> string \<Rightarrow> attestationStatus \<Rightarrow> RouteAttestation" where
  "mkAttestation i b p t st =
     \<lparr>id' = i, businessId = b, period = p, attestedAt = t, merkleRoot = Some ''0xabc'',
      timestamp = Some 1700000000000, version = Some ''1.0.0'', txHash = Some ''tx_1'',
      status = Some st, revokedAt = Some Null\<rparr>"

definition noCapabilities :: attestationRepository where
  "noCapabilities =
     \<lparr>repo_listByBusiness = None, repo_list = None, repo_getById = None,
      repo_create = None, repo_revoke = None\<rparr>"

text \<open>
  A repository that only has \<^verbatim>\<open>listByBusiness\<close>, the one method
  src/jobs/attestationReminder.ts calls on it.
\<close>

definition listingRepository :: "RouteAttestation list \<Rightarrow> attestationRepository" where
  "listingRepository items =
     noCapabilities\<lparr>repo_listByBusiness :=
        Some (\<lambda>b. Inr (filter (\<lambda>a. businessId a = b) items))\<rparr>"

text \<open>
  A consistent comparator to run the examples with: the order of the code units, which
  is also how two strings made by \<^verbatim>\<open>toISOString\<close> compare.
\<close>

definition codeUnitCompare :: "string \<Rightarrow> string \<Rightarrow> int" where
  "codeUnitCompare a b = (if a < b then - 1 else if a = b then 0 else 1)"

definition threeAttestations :: "RouteAttestation list" where
  "threeAttestations =
     [mkAttestation ''a1'' ''biz_1'' ''2025-01'' ''2025-02-01T00:00:00.000Z'' Submitted,
      mkAttestation ''a2'' ''biz_1'' ''2025-02'' ''2025-03-01T00:00:00.000Z'' Submitted,
      mkAttestation ''a3'' ''biz_1'' ''2025-03'' ''2025-04-01T00:00:00.000Z'' Revoked]"

definition pageQuery :: "nat \<Rightarrow> nat \<Rightarrow> ListQuery" where
  "pageQuery p n =
     \<lparr>q_businessId = None, q_period = None, q_status = None, q_page = p, q_limit = n\<rparr>"

text \<open>One id in the repository and in the in-memory store, with different contents.\<close>

definition storeVersion :: RouteAttestation where
  "storeVersion = mkAttestation ''a1'' ''biz_1'' ''2025-01'' ''2025-02-01T00:00:00.000Z'' Submitted"

definition bufferVersion :: RouteAttestation where
  "bufferVersion = mkAttestation ''a1'' ''biz_1'' ''2025-01'' ''2025-02-01T00:00:00.000Z'' Revoked"

text \<open>Two records attested at the same instant, around a later one.\<close>

definition tiedAttestations :: "RouteAttestation list" where
  "tiedAttestations =
     [mkAttestation ''a1'' ''biz_1'' ''2025-01'' ''2025-02-01T00:00:00.000Z'' Submitted,
      mkAttestation ''a2'' ''biz_1'' ''2025-02'' ''2025-03-01T00:00:00.000Z'' Submitted,
      mkAttestation ''a3'' ''biz_1'' ''2025-03'' ''2025-02-01T00:00:00.000Z'' Submitted]"

text \<open>A record of the second business.\<close>

definition foreignRecord :: RouteAttestation where
  "foreignRecord = mkAttestation ''b1'' ''biz_2'' ''2025-01'' ''2025-02-01T00:00:00.000Z'' Submitted"


definition exampleBody :: SubmitBody where
  "exampleBody =
     \<lparr>sb_businessId = None, sb_period = ''2025-06'', sb_merkleRoot = ''0xfeed'',
      sb_timestamp = None, sb_version = ''1.0.0''\<rparr>"

definition exampleEnv :: SubmitEnv where
  "exampleEnv =
     \<lparr>pendingUuid = ''1b4e28ba-2fa1-41d2-883f-0016d3cca427'',
      idUuid = ''6fa459ea-ee8a-4ca4-894e-db77e160355e'',
      dateNowAnchor = 1751328000000, dateNowRecord = 1751328000001,
      nowIso = ''2025-07-01T00:00:00.001Z''\<rparr>"

definition emptyWorld :: world where
  "emptyWorld = \<lparr>localAttestationStore = [], anchorCalls = [], createCalls = []\<rparr>"

text \<open>A stand-in digest that writes its input between brackets, and the five leaves of the test.\<close>

definition bracketHash :: HashFunction where
  "bracketHash = \<lparr>digest = (\<lambda>s. ''<'' @ s @ ''>''), leafDomainTag = ''L'', nodeDomainTag = ''N''\<rparr>"

definition fiveLeaves :: "string list" where
  "fiveLeaves = [''a'', ''b'', ''c'', ''d'', ''e'']"

text \<open>An anchoring module that answers, and a later moment with other UUIDs.\<close>

definition workingChain :: chainModule where
  "workingChain = SubmitAttestation (\<lambda>p. Inr \<lparr>res_txHash = ''tx_'' @ p_merkleRoot p\<rparr>)"

definition laterEnv :: SubmitEnv where
  "laterEnv =
     \<lparr>pendingUuid = ''9c5b94b1-35ad-49bb-b118-8e8fc24abf80'',
      idUuid = ''16fd2706-8baf-433b-82eb-8c7fada847da'',
      dateNowAnchor = 1751328060000, dateNowRecord = 1751328060001,
      nowIso = ''2025-07-01T00:01:00.001Z''\<rparr>"

section \<open>De-duplication and sorting\<close>

subsection \<open>Map.set and dedupe\<close>

lemma mapSet_keys: "map fst (mapSet k v m) = (if k \<in> fst ` set m then map fst m else map fst m @ [k])"
  by (induction m) (force split: if_splits)+

lemma mapSet_distinct: "distinct (map fst m) \<Longrightarrow> distinct (map fst (mapSet k v m))"
  by (simp add: mapSet_keys)

lemma mapSet_map_of: "map_of (mapSet k v m) = (map_of m)(k \<mapsto> v)"
  by (induction m) (auto simp: fun_eq_iff)

lemma foldl_mapSet_distinct:
  "distinct (map fst m) \<Longrightarrow>
   distinct (map fst (foldl (\<lambda>deduped item. mapSet (id' item) item deduped) m xs))"
  by (induction xs arbitrary: m) (simp_all add: mapSet_distinct)

lemma foldl_mapSet_keyed:
  "(\<forall>(k, v) \<in> set m. id' v = k) \<Longrightarrow>
   (\<forall>(k, v) \<in> set (foldl (\<lambda>deduped item. mapSet (id' item) item deduped) m xs). id' v = k)"
proof (induction xs arbitrary: m)
  case Nil then show ?case by simp
next
  case (Cons x xs)
  have "\<forall>(k, v) \<in> set (mapSet (id' x) x m). id' v = k"
    using Cons.prems by (induction m) (auto split: if_splits)
  then show ?case using Cons.IH by simp
qed

lemma find_append':
  "find P (xs @ ys) = (case find P xs of None \<Rightarrow> find P ys | Some x \<Rightarrow> Some x)"
  by (induction xs) auto

lemma foldl_mapSet_map_of:
  "map_of (foldl (\<lambda>deduped item. mapSet (id' item) item deduped) m xs) k
     = (case find (\<lambda>x. id' x = k) (rev xs) of Some x \<Rightarrow> Some x | None \<Rightarrow> map_of m k)"
proof (induction xs arbitrary: m)
  case Nil then show ?case by simp
next
  case (Cons x xs)
  show ?case
    by (simp add: Cons.IH mapSet_map_of find_append' split: option.splits)
qed

lemma find_keyed:
  assumes "distinct (map fst m)" "\<forall>(k, v) \<in> set m. id' v = k"
  shows "find (\<lambda>x. id' x = k) (map snd m) = map_of m k"
  using assms by (induction m) (auto)

lemma dedupe_distinct: "distinct (map id' (dedupe merged))"
proof -
  let ?m = "foldl (\<lambda>deduped item. mapSet (id' item) item deduped) [] merged"
  have d: "distinct (map fst ?m)" by (rule foldl_mapSet_distinct) simp
  have k: "\<forall>(k, v) \<in> set ?m. id' v = k" by (rule foldl_mapSet_keyed) simp
  then have e: "map (id' \<circ> snd) ?m = map fst ?m" by auto
  show ?thesis unfolding dedupe_def map_map e by (rule d)
qed

lemma dedupe_find:
  "find (\<lambda>x. id' x = k) (dedupe merged) = find (\<lambda>x. id' x = k) (rev merged)"
proof -
  let ?m = "foldl (\<lambda>deduped item. mapSet (id' item) item deduped) [] merged"
  have d: "distinct (map fst ?m)" by (rule foldl_mapSet_distinct) simp
  have k: "\<forall>(k, v) \<in> set ?m. id' v = k" by (rule foldl_mapSet_keyed) simp
  have "find (\<lambda>x. id' x = k) (dedupe merged) = map_of ?m k"
    unfolding dedupe_def by (rule find_keyed[OF d k])
  also have "\<dots> = find (\<lambda>x. id' x = k) (rev merged)"
    by (simp add: foldl_mapSet_map_of split: option.splits)
  finally show ?thesis .
qed

subsection \<open>The stable sort\<close>

lemma set_insertSorted: "set (insertSorted cmp x ys) = insert x (set ys)"
  by (induction ys) auto

lemma sortArray_Nil: "sortArray cmp [] = []"
  by (simp add: sortArray_def)

lemma sortArray_Cons: "sortArray cmp (x # xs) = insertSorted cmp x (sortArray cmp xs)"
  by (simp add: sortArray_def)

lemma set_sortArray: "set (sortArray cmp xs) = set xs"
  by (induction xs) (simp_all add: sortArray_Nil sortArray_Cons set_insertSorted)

lemma length_insertSorted: "length (insertSorted cmp x ys) = Suc (length ys)"
  by (induction ys) auto

lemma length_sortArray: "length (sortArray cmp xs) = length xs"
  by (induction xs) (simp_all add: sortArray_Nil sortArray_Cons length_insertSorted)

lemma distinct_insertSorted:
  "distinct (map f (insertSorted cmp x ys)) = distinct (map f (x # ys))"
  by (induction ys) (auto simp: set_insertSorted)

lemma distinct_sortArray: "distinct (map f (sortArray cmp xs)) = distinct (map f xs)"
  by (induction xs) (simp_all add: sortArray_Nil sortArray_Cons distinct_insertSorted set_sortArray)

lemma find_unique:
  "distinct (map f xs) \<Longrightarrow> find (\<lambda>y. f y = k) xs = Some x \<longleftrightarrow> x \<in> set xs \<and> f x = k"
  by (induction xs) (auto)

lemma find_same_set:
  assumes "distinct (map f xs)" "distinct (map f ys)" "set xs = set ys"
  shows "find (\<lambda>y. f y = k) xs = find (\<lambda>y. f y = k) ys"
proof (cases "find (\<lambda>y. f y = k) ys")
  case None
  then have "\<forall>y \<in> set xs. f y \<noteq> k" using assms(3) by (simp add: find_None_iff)
  then have "find (\<lambda>y. f y = k) xs = None" by (simp add: find_None_iff)
  with None show ?thesis by simp
next
  case (Some x)
  then have "x \<in> set ys \<and> f x = k" by (simp only: find_unique[OF assms(2)])
  then have "x \<in> set xs \<and> f x = k" by (simp only: assms(3))
  then have "find (\<lambda>y. f y = k) xs = Some x" by (simp only: find_unique[OF assms(1)])
  with Some show ?thesis by simp
qed

lemma sorted_insertSorted:
  assumes tot: "\<And>a b. cmp a b \<le> 0 \<or> cmp b a \<le> 0"
      and tr: "\<And>a b c. cmp a b \<le> 0 \<Longrightarrow> cmp b c \<le> 0 \<Longrightarrow> cmp a c \<le> 0"
  shows "sorted_wrt (\<lambda>a b. cmp a b \<le> 0) ys \<Longrightarrow> sorted_wrt (\<lambda>a b. cmp a b \<le> 0) (insertSorted cmp x ys)"
proof (induction ys)
  case Nil then show ?case by simp
next
  case (Cons y ys)
  show ?case
  proof (cases "cmp x y \<le> 0")
    case True
    then have "\<forall>z \<in> set ys. cmp x z \<le> 0" using Cons.prems tr by auto
    with True Cons.prems show ?thesis by simp
  next
    case False
    then have "cmp y x \<le> 0" using tot by blast
    with False Cons show ?thesis by (auto simp: set_insertSorted)
  qed
qed

lemma sorted_sortArray:
  assumes tot: "\<And>a b. cmp a b \<le> 0 \<or> cmp b a \<le> 0"
      and tr: "\<And>a b c. cmp a b \<le> 0 \<Longrightarrow> cmp b c \<le> 0 \<Longrightarrow> cmp a c \<le> 0"
  shows "sorted_wrt (\<lambda>a b. cmp a b \<le> 0) (sortArray cmp xs)"
proof (induction xs)
  case Nil show ?case by (simp add: sortArray_def)
next
  case (Cons x xs)
  have "sortArray cmp (x # xs) = insertSorted cmp x (sortArray cmp xs)"
    by (simp add: sortArray_def)
  with Cons sorted_insertSorted[OF tot tr] show ?case by simp
qed

lemma filter_insertSorted:
  assumes refl: "\<And>a b. key a = key b \<Longrightarrow> cmp a b \<le> 0"
  shows "filter (\<lambda>r. key r = t) (insertSorted cmp x ys)
           = (if key x = t then x # filter (\<lambda>r. key r = t) ys else filter (\<lambda>r. key r = t) ys)"
proof (induction ys)
  case Nil show ?case by simp
next
  case (Cons y ys)
  show ?case
  proof (cases "cmp x y \<le> 0")
    case True then show ?thesis by simp
  next
    case False
    then have "key x \<noteq> key y" using refl by blast
    with False Cons show ?thesis by auto
  qed
qed

lemma stable_sortArray:
  assumes refl: "\<And>a b. key a = key b \<Longrightarrow> cmp a b \<le> 0"
  shows "filter (\<lambda>r. key r = t) (sortArray cmp xs) = filter (\<lambda>r. key r = t) xs"
proof (induction xs)
  case Nil show ?case by (simp add: sortArray_def)
next
  case (Cons x xs)
  have "sortArray cmp (x # xs) = insertSorted cmp x (sortArray cmp xs)"
    by (simp add: sortArray_def)
  then show ?case using Cons by (simp add: filter_insertSorted[OF refl])
qed

section \<open>listByBusinessId: precedence and order\<close>

lemma find_SomeD: "find P xs = Some x \<Longrightarrow> x \<in> set xs \<and> P x"
  by (induction xs) (auto split: if_splits)

lemma mergeSorted_distinct: "distinct (map id' (mergeSorted lc repositoryItems store b))"
  by (simp add: mergeSorted_def Let_def distinct_sortArray dedupe_distinct)

lemma mergeSorted_find:
  "find (\<lambda>x. id' x = k) (mergeSorted lc repositoryItems store b)
     = find (\<lambda>x. id' x = k) (rev (repositoryItems @ filter (\<lambda>item. businessId item = b) store))"
proof -
  let ?merged = "repositoryItems @ filter (\<lambda>item. businessId item = b) store"
  let ?cmp = "\<lambda>a b. lc (attestedAt b) (attestedAt a)"
  have "find (\<lambda>x. id' x = k) (sortArray ?cmp (dedupe ?merged)) = find (\<lambda>x. id' x = k) (dedupe ?merged)"
    by (rule find_same_set) (simp_all add: distinct_sortArray dedupe_distinct set_sortArray)
  then show ?thesis by (simp only: mergeSorted_def Let_def dedupe_find)
qed

text \<open>
  Claim C4, as the code has it. The merged array is the repository's items followed by
  the in-memory items, and \<^verbatim>\<open>deduped.set\<close> overwrites: when an id is in both, the
  list holds the in-memory store's record (its last one with that id) and no other record
  with that id.
\<close>

theorem buffer_version_kept_on_conflict:
  assumes "repositoryItemsOf repo b = Inr repositoryItems"
      and "l \<in> set store" and "businessId l = b" and "id' l = k"
  shows "\<exists>items x. listByBusinessId lc repo store b = Inr items \<and>
           distinct (map id' items) \<and>
           find (\<lambda>x. id' x = k) items = Some x \<and>
           find (\<lambda>x. id' x = k) (rev (filter (\<lambda>item. businessId item = b) store)) = Some x \<and>
           x \<in> set store"
proof -
  let ?local = "filter (\<lambda>item. businessId item = b) store"
  let ?items = "mergeSorted lc repositoryItems store b"
  have li: "listByBusinessId lc repo store b = Inr ?items"
    by (simp add: listByBusinessId_def assms(1))
  have "l \<in> set (rev ?local)" using assms(2,3) by simp
  then have "find (\<lambda>x. id' x = k) (rev ?local) \<noteq> None"
    using assms(4) by (auto simp: find_None_iff)
  then obtain x where x: "find (\<lambda>x. id' x = k) (rev ?local) = Some x" by blast
  from find_SomeD[OF x] have xs: "x \<in> set store" by simp
  have "find (\<lambda>x. id' x = k) ?items = Some x"
    by (simp add: mergeSorted_find find_append' x)
  with li x xs mergeSorted_distinct show ?thesis by blast
qed

text \<open>
  The claim as stated, that the repository's version is the one kept, fails on one id
  held by both with different contents.
\<close>

theorem store_precedence_counterexample:
  "listByBusinessId codeUnitCompare (listingRepository [storeVersion]) [bufferVersion] ''biz_1''
     = Inr [bufferVersion] \<and>
   id' storeVersion = id' bufferVersion \<and> bufferVersion \<noteq> storeVersion"
  by (simp add: listByBusinessId_def repositoryItemsOf_def listingRepository_def noCapabilities_def
      mergeSorted_def dedupe_def sortArray_def storeVersion_def bufferVersion_def mkAttestation_def)

theorem buffer_version_kept_on_conflict_witness:
  "\<exists>items. listByBusinessId codeUnitCompare (listingRepository [storeVersion]) [bufferVersion] ''biz_1''
       = Inr items \<and>
     find (\<lambda>x. id' x = ''a1'') items = Some bufferVersion"
proof -
  have r: "repositoryItemsOf (listingRepository [storeVersion]) ''biz_1'' = Inr [storeVersion]"
    by (simp add: repositoryItemsOf_def listingRepository_def noCapabilities_def storeVersion_def
        mkAttestation_def)
  have m: "bufferVersion \<in> set [bufferVersion]" by simp
  have b: "businessId bufferVersion = ''biz_1''" "id' bufferVersion = ''a1''"
    by (simp_all add: bufferVersion_def mkAttestation_def)
  from buffer_version_kept_on_conflict[OF r m b, of codeUnitCompare]
  show ?thesis by (auto simp: b)
qed

lemma consistent_codeUnitCompare: "consistentComparator codeUnitCompare"
  unfolding consistentComparator_def codeUnitCompare_def
  by (auto split: if_splits)

text \<open>
  Claim C5. The list is sorted by \<open>attestedAt\<close>, most recent first, and records with
  equal \<open>attestedAt\<close> stay in the order the de-duplicating map holds them (its
  insertion order).
\<close>

theorem list_sorted_descending_and_stable:
  assumes "consistentComparator lc"
      and "listByBusinessId lc repo store b = Inr items"
  shows "sorted_wrt (\<lambda>x y. lc (attestedAt y) (attestedAt x) \<le> 0) items \<and>
         (\<exists>repositoryItems. repositoryItemsOf repo b = Inr repositoryItems \<and>
            (\<forall>t. filter (\<lambda>r. attestedAt r = t) items
                   = filter (\<lambda>r. attestedAt r = t)
                       (dedupe (repositoryItems @ filter (\<lambda>item. businessId item = b) store))))"
proof -
  let ?cmp = "\<lambda>x y. lc (attestedAt y) (attestedAt x)"
  from assms(2) obtain repositoryItems where
    r: "repositoryItemsOf repo b = Inr repositoryItems"
    and i: "items = mergeSorted lc repositoryItems store b"
    by (auto simp: listByBusinessId_def split: sum.splits)
  let ?d = "dedupe (repositoryItems @ filter (\<lambda>item. businessId item = b) store)"
  have i': "items = sortArray ?cmp ?d" by (simp add: i mergeSorted_def Let_def)
  have tot: "?cmp x y \<le> 0 \<or> ?cmp y x \<le> 0" for x y
    using assms(1) unfolding consistentComparator_def by blast
  have tr: "?cmp x y \<le> 0 \<Longrightarrow> ?cmp y z \<le> 0 \<Longrightarrow> ?cmp x z \<le> 0" for x y z
    using assms(1) unfolding consistentComparator_def by blast
  have eq: "attestedAt x = attestedAt y \<Longrightarrow> ?cmp x y \<le> 0" for x y
    using assms(1) unfolding consistentComparator_def by simp
  have s: "sorted_wrt (\<lambda>x y. ?cmp x y \<le> 0) items"
    unfolding i' by (rule sorted_sortArray[where cmp = ?cmp, OF tot tr])
  have st: "filter (\<lambda>r. attestedAt r = t) items = filter (\<lambda>r. attestedAt r = t) ?d" for t
    unfolding i' by (rule stable_sortArray[where cmp = ?cmp and key = attestedAt, OF eq])
  from s r st show ?thesis by blast
qed

theorem list_sorted_descending_and_stable_witness:
  "consistentComparator codeUnitCompare \<and>
   listByBusinessId codeUnitCompare noCapabilities tiedAttestations ''biz_1''
     = Inr [tiedAttestations ! 1, tiedAttestations ! 0, tiedAttestations ! 2] \<and>
   sorted_wrt (\<lambda>x y. codeUnitCompare (attestedAt y) (attestedAt x) \<le> 0)
     [tiedAttestations ! 1, tiedAttestations ! 0, tiedAttestations ! 2] \<and>
   filter (\<lambda>r. attestedAt r = ''2025-02-01T00:00:00.000Z'')
     [tiedAttestations ! 1, tiedAttestations ! 0, tiedAttestations ! 2]
     = [tiedAttestations ! 0, tiedAttestations ! 2]"
proof -
  let ?items = "[tiedAttestations ! 1, tiedAttestations ! 0, tiedAttestations ! 2]"
  have h: "listByBusinessId codeUnitCompare noCapabilities tiedAttestations ''biz_1'' = Inr ?items"
    by (simp add: listByBusinessId_def repositoryItemsOf_def noCapabilities_def mergeSorted_def
        dedupe_def sortArray_def tiedAttestations_def mkAttestation_def codeUnitCompare_def)
  have f: "filter (\<lambda>r. attestedAt r = ''2025-02-01T00:00:00.000Z'') ?items
        = [tiedAttestations ! 0, tiedAttestations ! 2]"
    by (simp add: tiedAttestations_def mkAttestation_def)
  from list_sorted_descending_and_stable[OF consistent_codeUnitCompare h]
  have "sorted_wrt (\<lambda>x y. codeUnitCompare (attestedAt y) (attestedAt x) \<le> 0) ?items"
    by blast
  with consistent_codeUnitCompare h f show ?thesis by blast
qed

section \<open>Scoped lookup and revocation\<close>

subsection \<open>getById\<close>

lemma set_mergeSorted:
  "set (mergeSorted lc repositoryItems store b)
     \<subseteq> set repositoryItems \<union> {r \<in> set store. businessId r = b}"
proof -
  have "set (dedupe xs) \<subseteq> set xs" for xs
  proof
    fix x assume "x \<in> set (dedupe xs)"
    then have "find (\<lambda>y. id' y = id' x) (dedupe xs) = Some x"
      by (simp add: find_unique[OF dedupe_distinct])
    then have "find (\<lambda>y. id' y = id' x) (rev xs) = Some x" by (simp only: dedupe_find)
    from find_SomeD[OF this] show "x \<in> set xs" by simp
  qed
  from this[of "repositoryItems @ filter (\<lambda>item. businessId item = b) store"]
  show ?thesis by (auto simp: mergeSorted_def Let_def set_sortArray)
qed

lemma getById_business:
  assumes "repo_getById repo = None \<Longrightarrow>
           (\<And>items. repositoryItemsOf repo b = Inr items \<Longrightarrow> \<forall>r \<in> set items. businessId r = b)"
      and "getById lc repo store i b = Inr (Some r)"
  shows "businessId r = b"
proof (cases "repo_getById repo")
  case (Some g)
  with assms(2) show ?thesis
    by (auto simp: getById_def split: sum.splits option.splits if_splits)
next
  case None
  with assms(2) obtain repositoryItems where
    ri: "repositoryItemsOf repo b = Inr repositoryItems"
    and f: "find (\<lambda>item. id' item = i) (mergeSorted lc repositoryItems store b) = Some r"
    by (auto simp: getById_def listByBusinessId_def split: sum.splits)
  from find_SomeD[OF f] have m: "r \<in> set (mergeSorted lc repositoryItems store b)"
    by simp
  from m set_mergeSorted have "r \<in> set repositoryItems \<or> (r \<in> set store \<and> businessId r = b)"
    by blast
  with assms(1)[OF None ri] show ?thesis by blast
qed

text \<open>
  Claim C8. \<open>getById(id, b)\<close> returns a record only if its \<open>businessId\<close> is \<open>b\<close>;
  a record of another business is answered with 404 \<open>ATTESTATION_NOT_FOUND\<close> and
  never returned. Where the repository has no \<^verbatim>\<open>getById\<close> the lookup goes through
  its listing, which is taken to list the records of the business asked for.
\<close>

theorem getById_is_scoped_to_business:
  assumes "repo_getById repo = None \<Longrightarrow>
           (\<And>items. repositoryItemsOf repo b = Inr items \<Longrightarrow> \<forall>r \<in> set items. businessId r = b)"
  shows "(\<forall>r. getById lc repo store i b = Inr (Some r) \<longrightarrow> businessId r = b) \<and>
         (\<forall>g r'. repo_getById repo = Some g \<longrightarrow> g i = Inr (Some r') \<longrightarrow> businessId r' \<noteq> b
              \<longrightarrow> getById lc repo store i b = Inr None) \<and>
         (\<forall>bs uid. resolveBusinessIdForUser bs uid = Some b \<longrightarrow> b \<noteq> [] \<longrightarrow> i \<noteq> []
              \<longrightarrow> getById lc repo store i b = Inr None
              \<longrightarrow> getHandler lc repo bs store uid i
                    = Inl (HttpError 404 ''ATTESTATION_NOT_FOUND'' ''Attestation not found'')) \<and>
         (\<forall>bs uid resp. resolveBusinessIdForUser bs uid = Some b
              \<longrightarrow> getHandler lc repo bs store uid i = Inr resp
              \<longrightarrow> businessId (r_data resp) = b)"
proof -
  have a: "\<forall>r. getById lc repo store i b = Inr (Some r) \<longrightarrow> businessId r = b"
    using getById_business[OF assms] by blast
  have c: "\<forall>g r'. repo_getById repo = Some g \<longrightarrow> g i = Inr (Some r') \<longrightarrow> businessId r' \<noteq> b
              \<longrightarrow> getById lc repo store i b = Inr None"
    by (simp add: getById_def)
  have d: "\<forall>bs uid. resolveBusinessIdForUser bs uid = Some b \<longrightarrow> b \<noteq> [] \<longrightarrow> i \<noteq> []
              \<longrightarrow> getById lc repo store i b = Inr None
              \<longrightarrow> getHandler lc repo bs store uid i
                    = Inl (HttpError 404 ''ATTESTATION_NOT_FOUND'' ''Attestation not found'')"
    by (simp add: getHandler_def parseIdParam_def truthy_def Let_def createHttpError_def)
  have e: "\<forall>bs uid resp. resolveBusinessIdForUser bs uid = Some b
              \<longrightarrow> getHandler lc repo bs store uid i = Inr resp
              \<longrightarrow> businessId (r_data resp) = b"
    using a by (auto simp: getHandler_def parseIdParam_def truthy_def Let_def
        split: if_splits sum.splits option.splits)
  from a c d e show ?thesis by blast
qed

subsection \<open>revokeAttestation\<close>











subsection \<open>Examples of lookup and revocation\<close>

lemma example_resolve_user: 
  "resolveBusinessIdForUser seedBusinesses ''user_1'' = Some ''biz_1''"
  "resolveBusinessIdForUser seedBusinesses ''user_2'' = Some ''biz_2''"
  by (simp_all add: resolveBusinessIdForUser_def findByUserId_def seedBusinesses_def)

theorem getById_is_scoped_to_business_witness:
  "getById codeUnitCompare (listingRepository [foreignRecord]) [foreignRecord] ''b1'' ''biz_1''
     = Inr None \<and>
   getHandler codeUnitCompare (listingRepository [foreignRecord]) seedBusinesses [foreignRecord]
     ''user_1'' ''b1''
     = Inl (HttpError 404 ''ATTESTATION_NOT_FOUND'' ''Attestation not found'') \<and>
   getHandler codeUnitCompare (listingRepository [foreignRecord]) seedBusinesses [foreignRecord]
     ''user_2'' ''b1''
     = Inr \<lparr>r_httpStatus = 200, r_data = foreignRecord\<rparr>"
proof -
  let ?repo = "listingRepository [foreignRecord]"
  have contract: "\<forall>r \<in> set items. businessId r = ''biz_1''"
    if "repositoryItemsOf ?repo ''biz_1'' = Inr items" for items
    using that by (auto simp: repositoryItemsOf_def listingRepository_def noCapabilities_def
        split: if_splits)
  have n: "getById codeUnitCompare ?repo [foreignRecord] ''b1'' ''biz_1'' = Inr None"
    by (simp add: getById_def listByBusinessId_def repositoryItemsOf_def listingRepository_def
        noCapabilities_def mergeSorted_def dedupe_def sortArray_def foreignRecord_def
        mkAttestation_def)
  from getById_is_scoped_to_business[of ?repo "''biz_1''" codeUnitCompare "[foreignRecord]" "''b1''",
      OF contract]
  have "resolveBusinessIdForUser seedBusinesses ''user_1'' = Some ''biz_1'' \<longrightarrow> ''biz_1'' \<noteq> [] \<longrightarrow>
        ''b1'' \<noteq> [] \<longrightarrow> getById codeUnitCompare ?repo [foreignRecord] ''b1'' ''biz_1'' = Inr None \<longrightarrow>
        getHandler codeUnitCompare ?repo seedBusinesses [foreignRecord] ''user_1'' ''b1''
          = Inl (HttpError 404 ''ATTESTATION_NOT_FOUND'' ''Attestation not found'')"
    by blast
  then have h1: "getHandler codeUnitCompare ?repo seedBusinesses [foreignRecord] ''user_1'' ''b1''
          = Inl (HttpError 404 ''ATTESTATION_NOT_FOUND'' ''Attestation not found'')"
    using n example_resolve_user(1) by simp
  have h2: "getHandler codeUnitCompare ?repo seedBusinesses [foreignRecord] ''user_2'' ''b1''
     = Inr \<lparr>r_httpStatus = 200, r_data = foreignRecord\<rparr>"
    by (simp add: getHandler_def parseIdParam_def example_resolve_user truthy_def
        getById_def listByBusinessId_def repositoryItemsOf_def listingRepository_def
        noCapabilities_def mergeSorted_def dedupe_def sortArray_def foreignRecord_def
        mkAttestation_def)
  from n h1 h2 show ?thesis by blast
qed





section \<open>Anchoring failure in POST /\<close>

lemma submitOnChain_fails:
  assumes "chain = ImportFails \<or> chain = NoSubmitAttestation \<or>
           (\<exists>f e. chain = SubmitAttestation f \<and> f params = Inl e)"
  shows "fst (submitOnChain chain uuid params) = \<lparr>res_txHash = ''pending_'' @ uuid\<rparr>"
  using assms by (auto simp: submitOnChain_def)

text \<open>
  Claim C1. A submit request that reaches the anchoring step and whose anchoring fails
  (the module cannot be imported, it has no \<^verbatim>\<open>submitAttestation\<close>, or the call
  rejects) does not fail for it: the transaction id is \<open>pending_\<close> followed by a UUID,
  the record handed to the store has that id and status \<open>submitted\<close>, and the answer
  is 201 with that \<open>txHash\<close> once the store has taken the record.
\<close>

theorem anchoring_failure_is_not_request_failure:
  assumes "resolveSubmitBusiness bs uid payload = Inr bId"
      and "chain = ImportFails \<or> chain = NoSubmitAttestation \<or>
           (\<exists>f e. chain = SubmitAttestation f \<and> f (anchorParams bId payload env) = Inl e)"
      and "\<forall>c. repo_create repo = Some c \<longrightarrow>
             (\<exists>saved. c (newRecord bId payload env (''pending_'' @ pendingUuid env)) = Inr saved)"
  shows "\<exists>saved w'. submitHandler repo chain bs env w uid payload
             = (Inr \<lparr>s_httpStatus = 201, s_data = saved,
                     s_txHash = ''pending_'' @ pendingUuid env\<rparr>, w') \<and>
           (let record = newRecord bId payload env (''pending_'' @ pendingUuid env)
            in txHash record = Some (''pending_'' @ pendingUuid env) \<and>
               status record = Some Submitted \<and>
               (case repo_create repo of
                  None \<Rightarrow> saved = record \<and>
                          localAttestationStore w' = localAttestationStore w @ [record] \<and>
                          createCalls w' = createCalls w
                | Some c \<Rightarrow> c record = Inr saved \<and>
                            createCalls w' = createCalls w @ [record] \<and>
                            localAttestationStore w' = localAttestationStore w))"
proof -
  let ?tx = "''pending_'' @ pendingUuid env"
  let ?newRec = "newRecord bId payload env ?tx"
  obtain onChain anchored where
    oc: "submitOnChain chain (pendingUuid env) (anchorParams bId payload env) = (onChain, anchored)"
    by (cases "submitOnChain chain (pendingUuid env) (anchorParams bId payload env)")
  from submitOnChain_fails[OF assms(2), of "pendingUuid env"] oc
  have tx: "res_txHash onChain = ?tx" by simp
  have f: "txHash ?newRec = Some ?tx" "status ?newRec = Some Submitted"
    by (simp_all add: newRecord_def)
  show ?thesis
  proof (cases "repo_create repo")
    case None
    then show ?thesis
      using f by (simp add: submitHandler_def assms(1) oc tx saveAttestation_def Let_def)
  next
    case (Some c)
    with assms(3) obtain saved where s: "c ?newRec = Inr saved" by blast
    with Some show ?thesis
      using f by (simp add: submitHandler_def assms(1) oc tx saveAttestation_def Let_def)
  qed
qed

theorem anchoring_failure_is_not_request_failure_witness:
  "submitHandler noCapabilities ImportFails seedBusinesses exampleEnv emptyWorld ''user_1'' exampleBody
     = (Inr \<lparr>s_httpStatus = 201,
             s_data = newRecord ''biz_1'' exampleBody exampleEnv
                        ''pending_1b4e28ba-2fa1-41d2-883f-0016d3cca427'',
             s_txHash = ''pending_1b4e28ba-2fa1-41d2-883f-0016d3cca427''\<rparr>,
        \<lparr>localAttestationStore = [newRecord ''biz_1'' exampleBody exampleEnv
                                    ''pending_1b4e28ba-2fa1-41d2-883f-0016d3cca427''],
         anchorCalls = [], createCalls = []\<rparr>) \<and>
   status (newRecord ''biz_1'' exampleBody exampleEnv
             ''pending_1b4e28ba-2fa1-41d2-883f-0016d3cca427'') = Some Submitted"
proof -
  have b: "resolveSubmitBusiness seedBusinesses ''user_1'' exampleBody = Inr ''biz_1''"
    by (simp add: resolveSubmitBusiness_def exampleBody_def truthy_def Let_def
        resolveBusinessIdForUser_def findByUserId_def seedBusinesses_def)
  have c: "ImportFails = ImportFails \<or> ImportFails = NoSubmitAttestation \<or>
           (\<exists>f e. ImportFails = SubmitAttestation f \<and>
              f (anchorParams ''biz_1'' exampleBody exampleEnv) = Inl e)" by simp
  have p: "\<forall>c. repo_create noCapabilities = Some c \<longrightarrow>
             (\<exists>saved. c (newRecord ''biz_1'' exampleBody exampleEnv
                            (''pending_'' @ pendingUuid exampleEnv)) = Inr saved)"
    by (simp add: noCapabilities_def)
  have u: "''pending_'' @ pendingUuid exampleEnv = ''pending_1b4e28ba-2fa1-41d2-883f-0016d3cca427''"
    by (simp add: exampleEnv_def)
  have pu: "pendingUuid exampleEnv = ''1b4e28ba-2fa1-41d2-883f-0016d3cca427''"
    by (simp add: exampleEnv_def)
  have nc: "repo_create noCapabilities = None" by (simp add: noCapabilities_def)
  from anchoring_failure_is_not_request_failure[OF b c p, of emptyWorld]
  obtain saved w' where
    h: "submitHandler noCapabilities ImportFails seedBusinesses exampleEnv emptyWorld ''user_1''
          exampleBody
        = (Inr \<lparr>s_httpStatus = 201, s_data = saved,
                 s_txHash = ''pending_'' @ pendingUuid exampleEnv\<rparr>, w')"
    and r: "status (newRecord ''biz_1'' exampleBody exampleEnv (''pending_'' @ pendingUuid exampleEnv))
              = Some Submitted"
    and s: "saved = newRecord ''biz_1'' exampleBody exampleEnv (''pending_'' @ pendingUuid exampleEnv)"
    by (auto simp: Let_def nc)
  have w: "w' = \<lparr>localAttestationStore = [newRecord ''biz_1'' exampleBody exampleEnv
                                    ''pending_1b4e28ba-2fa1-41d2-883f-0016d3cca427''],
         anchorCalls = [], createCalls = []\<rparr>"
    using h by (auto simp: submitHandler_def b submitOnChain_def saveAttestation_def nc Let_def
        emptyWorld_def pu)
  from h r s w show ?thesis by (simp only: u)
qed

section \<open>Pagination\<close>

lemma totalPages_bounds:
  assumes "0 < n"
  shows "t \<le> totalPagesOf t n * n" and "0 < t \<Longrightarrow> (totalPagesOf t n - 1) * n < t"
proof -
  define c where "c = \<lceil>real t / real n\<rceil>"
  have tpc: "totalPagesOf t n = max 1 (nat c)" by (simp only: totalPagesOf_def c_def)
  have npos: "0 < real n" using assms by simp
  have corr: "of_int c - 1 < real t / real n \<and> real t / real n \<le> of_int c"
    unfolding c_def by (rule ceiling_correct)
  have "0 \<le> real t / real n" by simp
  then have c0: "0 \<le> c" unfolding c_def by (simp only: zero_le_ceiling)
  have cn: "real (nat c) = of_int c" using c0 by (rule of_nat_nat)
  have "real t / real n \<le> of_int c" using corr by blast
  then have "real t \<le> of_int c * real n" using npos by (simp only: pos_divide_le_eq)
  then have "real t \<le> real (nat c * n)" by (simp only: cn of_nat_mult)
  then have a: "t \<le> nat c * n" by (simp only: of_nat_le_iff)
  have "nat c \<le> totalPagesOf t n" unfolding tpc by (rule max.cobounded2)
  then have "nat c * n \<le> totalPagesOf t n * n" by (rule mult_le_mono1)
  with a show "t \<le> totalPagesOf t n * n" by (rule le_trans)
  assume tpos: "0 < t"
  then have "0 < real t / real n" using npos by simp
  then have cpos: "0 < c" unfolding c_def by (simp only: zero_less_ceiling)
  then have c1: "1 \<le> nat c" by linarith
  then have tp: "totalPagesOf t n = nat c" unfolding tpc by (rule max_absorb2)
  have cn1: "real (nat c - 1) = of_int c - 1" using c1 cn by (simp only: of_nat_diff of_nat_1)
  have "of_int c - 1 < real t / real n" using corr by blast
  then have "(of_int c - 1) * real n < real t" using npos by (simp only: pos_less_divide_eq)
  then have "real ((nat c - 1) * n) < real t" by (simp only: cn1 of_nat_mult)
  then have "(nat c - 1) * n < t" by (simp only: of_nat_less_iff)
  then show "(totalPagesOf t n - 1) * n < t" by (simp only: tp)
qed

lemma concat_pages0:
  "concat (map (\<lambda>i. take n (drop (i * n) xs)) [0..<k]) = take (k * n) xs"
proof (induction k)
  case 0 show ?case by simp
next
  case (Suc k)
  have "take (k * n) xs @ take n (drop (k * n) xs) = take (k * n + n) xs"
    by (simp add: take_add)
  with Suc show ?case by (simp add: add.commute)
qed

lemma concat_slices:
  assumes "length xs \<le> k * n"
  shows "concat (map (\<lambda>p. slice xs ((p - 1) * n) ((p - 1) * n + n)) [1..<Suc k]) = xs"
proof -
  have "[1..<Suc k] = map Suc [0..<k]" by (simp add: map_Suc_upt)
  then have "concat (map (\<lambda>p. slice xs ((p - 1) * n) ((p - 1) * n + n)) [1..<Suc k])
      = concat (map (\<lambda>i. take n (drop (i * n) xs)) [0..<k])"
    by (simp add: slice_def comp_def)
  also have "\<dots> = take (k * n) xs" by (rule concat_pages0)
  also have "\<dots> = xs" using assms by simp
  finally show ?thesis .
qed

lemma listHandler_InrD:
  assumes "listHandler lc repo bs store uid q = Inr resp"
  shows "\<exists>bId allItems. queryBusinessId q bs uid = Some bId \<and> bId \<noteq> [] \<and>
           listByBusinessId lc repo store bId = Inr allItems \<and>
           resp = paginate q (filter (keepItem q) allItems)"
proof -
  from assms have t: "truthy (queryBusinessId q bs uid)"
    by (simp add: listHandler_def Let_def split: if_splits)
  then obtain bId where b: "queryBusinessId q bs uid = Some bId" "bId \<noteq> []"
    by (auto simp: truthy_def split: option.splits)
  from assms t b obtain allItems where
    "listByBusinessId lc repo store bId = Inr allItems"
    "resp = paginate q (filter (keepItem q) allItems)"
    by (auto simp: listHandler_def Let_def split: sum.splits)
  with b show ?thesis by blast
qed

lemma keepItem_page: "keepItem (q\<lparr>q_page := p\<rparr>) = keepItem q"
  by (rule ext) (simp add: keepItem_def)

lemma queryBusinessId_page: "queryBusinessId (q\<lparr>q_page := p\<rparr>) bs uid = queryBusinessId q bs uid"
  by (simp add: queryBusinessId_def)

lemma listHandler_page:
  assumes "queryBusinessId q bs uid = Some bId" "bId \<noteq> []"
      and "listByBusinessId lc repo store bId = Inr allItems"
  shows "listHandler lc repo bs store uid (q\<lparr>q_page := p\<rparr>)
           = Inr (paginate (q\<lparr>q_page := p\<rparr>) (filter (keepItem q) allItems))"
  using assms by (simp add: listHandler_def Let_def queryBusinessId_page truthy_def keepItem_page)

text \<open>
  Claim C6. A list response reports \<open>totalPages = max(1, ceil(total / limit))\<close>, where
  \<open>total\<close> is the number of records left by the filters, and a page beyond
  \<open>totalPages\<close> has no items while \<open>total\<close> and \<open>totalPages\<close> are as for any
  other page.
\<close>

theorem list_totalPages_and_page_beyond_range:
  assumes "listQuerySchema q"
      and "listHandler lc repo bs store uid q = Inr resp"
  shows "\<exists>bId allItems. queryBusinessId q bs uid = Some bId \<and>
           listByBusinessId lc repo store bId = Inr allItems \<and>
           l_total resp = length (filter (keepItem q) allItems) \<and>
           l_totalPages resp = max 1 (nat \<lceil>real (l_total resp) / real (q_limit q)\<rceil>) \<and>
           l_total resp \<le> l_totalPages resp * q_limit q \<and>
           (l_totalPages resp < q_page q \<longrightarrow> l_data resp = [])"
proof -
  from listHandler_InrD[OF assms(2)] obtain bId allItems where
    b: "queryBusinessId q bs uid = Some bId"
    and l: "listByBusinessId lc repo store bId = Inr allItems"
    and r: "resp = paginate q (filter (keepItem q) allItems)" by blast
  let ?f = "filter (keepItem q) allItems"
  have lim: "0 < q_limit q" using assms(1) by (simp add: listQuerySchema_def)
  have tot: "l_total resp = length ?f" by (simp add: r paginate_def Let_def)
  have tp: "l_totalPages resp = totalPagesOf (length ?f) (q_limit q)"
    by (simp add: r paginate_def Let_def)
  have le: "length ?f \<le> l_totalPages resp * q_limit q"
    unfolding tp by (rule totalPages_bounds(1)[OF lim])
  have beyond: "l_data resp = []" if "l_totalPages resp < q_page q"
  proof -
    from that have "l_totalPages resp \<le> q_page q - 1" by simp
    then have "l_totalPages resp * q_limit q \<le> (q_page q - 1) * q_limit q"
      by (rule mult_le_mono1)
    with le have "length ?f \<le> (q_page q - 1) * q_limit q" by (rule le_trans)
    then show ?thesis by (simp add: r paginate_def Let_def slice_def)
  qed
  have "l_totalPages resp = max 1 (nat \<lceil>real (l_total resp) / real (q_limit q)\<rceil>)"
    by (simp only: tp tot totalPagesOf_def)
  with b l tot le beyond show ?thesis by (simp only: tot) blast
qed

text \<open>
  Claim C7. For a fixed filter, business and limit, the item lists of the pages
  \<open>1 .. totalPages\<close>, one after the other, are the filtered and sorted list itself:
  nothing is left out and nothing comes twice.
\<close>

theorem pages_concatenate_to_filtered_set:
  assumes "listQuerySchema q"
      and "listHandler lc repo bs store uid q = Inr resp"
  shows "\<exists>bId allItems. queryBusinessId q bs uid = Some bId \<and>
           listByBusinessId lc repo store bId = Inr allItems \<and>
           map (\<lambda>p. listHandler lc repo bs store uid (q\<lparr>q_page := p\<rparr>)) [1..<Suc (l_totalPages resp)]
             = map (\<lambda>p. Inr (paginate (q\<lparr>q_page := p\<rparr>) (filter (keepItem q) allItems)))
                 [1..<Suc (l_totalPages resp)] \<and>
           concat (map (\<lambda>p. l_data (paginate (q\<lparr>q_page := p\<rparr>) (filter (keepItem q) allItems)))
                    [1..<Suc (l_totalPages resp)])
             = filter (keepItem q) allItems \<and>
           distinct (map id' (filter (keepItem q) allItems))"
proof -
  from listHandler_InrD[OF assms(2)] obtain bId allItems where
    b: "queryBusinessId q bs uid = Some bId" "bId \<noteq> []"
    and l: "listByBusinessId lc repo store bId = Inr allItems"
    and r: "resp = paginate q (filter (keepItem q) allItems)" by blast
  let ?f = "filter (keepItem q) allItems"
  let ?k = "l_totalPages resp"
  have lim: "0 < q_limit q" using assms(1) by (simp add: listQuerySchema_def)
  have tp: "?k = totalPagesOf (length ?f) (q_limit q)"
    by (simp add: r paginate_def Let_def)
  have le: "length ?f \<le> ?k * q_limit q"
    unfolding tp by (rule totalPages_bounds(1)[OF lim])
  have pages: "map (\<lambda>p. listHandler lc repo bs store uid (q\<lparr>q_page := p\<rparr>)) [1..<Suc ?k]
      = map (\<lambda>p. Inr (paginate (q\<lparr>q_page := p\<rparr>) ?f)) [1..<Suc ?k]"
    by (simp only: listHandler_page[OF b l])
  have data: "(\<lambda>p. l_data (paginate (q\<lparr>q_page := p\<rparr>) ?f))
      = (\<lambda>p. slice ?f ((p - 1) * q_limit q) ((p - 1) * q_limit q + q_limit q))"
    by (rule ext) (simp add: paginate_def Let_def)
  have "concat (map (\<lambda>p. l_data (paginate (q\<lparr>q_page := p\<rparr>) ?f)) [1..<Suc ?k]) = ?f"
    unfolding data by (rule concat_slices[OF le])
  moreover have "distinct (map id' ?f)"
  proof -
    from l obtain repositoryItems where "allItems = mergeSorted lc repositoryItems store bId"
      by (auto simp: listByBusinessId_def split: sum.splits)
    then have "distinct (map id' allItems)" by (simp only: mergeSorted_distinct)
    then show ?thesis by (rule distinct_map_filter)
  qed
  ultimately show ?thesis using b l pages by blast
qed

lemma example_listByBusinessId:
  "listByBusinessId codeUnitCompare noCapabilities threeAttestations ''biz_1''
     = Inr (rev threeAttestations)"
  by (simp add: listByBusinessId_def repositoryItemsOf_def noCapabilities_def mergeSorted_def
      dedupe_def sortArray_def threeAttestations_def mkAttestation_def codeUnitCompare_def)

lemma example_queryBusinessId:
  "queryBusinessId (pageQuery p n) seedBusinesses ''user_1'' = Some ''biz_1''"
  by (simp add: queryBusinessId_def pageQuery_def resolveBusinessIdForUser_def
      findByUserId_def seedBusinesses_def)

lemma example_listHandler:
  "listHandler codeUnitCompare noCapabilities seedBusinesses threeAttestations ''user_1''
     (pageQuery p n) = Inr (paginate (pageQuery p n) (rev threeAttestations))"
proof -
  have k: "filter (keepItem (pageQuery p n)) (rev threeAttestations) = rev threeAttestations"
    by (simp add: keepItem_def pageQuery_def truthy_def)
  show ?thesis
    by (simp add: listHandler_def Let_def example_queryBusinessId truthy_def
        example_listByBusinessId k)
qed

theorem list_totalPages_and_page_beyond_range_witness:
  "listQuerySchema (pageQuery 5 2) \<and>
   (\<exists>resp. listHandler codeUnitCompare noCapabilities seedBusinesses threeAttestations
              ''user_1'' (pageQuery 5 2) = Inr resp \<and>
           l_total resp = 3 \<and> l_totalPages resp = 2 \<and> l_data resp = [])"
proof -
  let ?resp = "paginate (pageQuery 5 2) (rev threeAttestations)"
  have s: "listQuerySchema (pageQuery 5 2)"
    by (simp add: listQuerySchema_def pageQuery_def)
  have h: "listHandler codeUnitCompare noCapabilities seedBusinesses threeAttestations
             ''user_1'' (pageQuery 5 2) = Inr ?resp"
    by (rule example_listHandler)
  have k: "filter (keepItem (pageQuery 5 2)) (rev threeAttestations) = rev threeAttestations"
    by (simp add: keepItem_def pageQuery_def truthy_def)
  from list_totalPages_and_page_beyond_range[OF s h] obtain bId allItems where
    l: "queryBusinessId (pageQuery 5 2) seedBusinesses ''user_1'' = Some bId"
       "listByBusinessId codeUnitCompare noCapabilities threeAttestations bId = Inr allItems"
    and t: "l_total ?resp = length (filter (keepItem (pageQuery 5 2)) allItems)"
    and tp: "l_totalPages ?resp = max 1 (nat \<lceil>real (l_total ?resp) / real (q_limit (pageQuery 5 2))\<rceil>)"
    and e: "l_totalPages ?resp < q_page (pageQuery 5 2) \<longrightarrow> l_data ?resp = []"
    by blast
  from l(1) have bid: "bId = ''biz_1''"
    by (auto simp: example_queryBusinessId)
  from l(2) have a: "allItems = rev threeAttestations"
    by (simp add: bid example_listByBusinessId)
  have n3: "length (rev threeAttestations) = 3" by (simp add: threeAttestations_def)
  have t3: "l_total ?resp = 3" using t by (simp only: a k n3)
  have ql: "q_limit (pageQuery 5 2) = 2" "q_page (pageQuery 5 2) = 5"
    by (simp_all add: pageQuery_def)
  have c2: "max 1 (nat \<lceil>real 3 / real 2\<rceil>) = (2::nat)" by simp
  have tp2: "l_totalPages ?resp = 2" using tp by (simp only: t3 ql c2)
  have "(2::nat) < 5" by simp
  with e have "l_data ?resp = []" by (simp only: tp2 ql)
  with s h t3 tp2 show ?thesis by blast
qed

theorem pages_concatenate_to_filtered_set_witness:
  "listQuerySchema (pageQuery 1 2) \<and>
   concat (map (\<lambda>p. case listHandler codeUnitCompare noCapabilities seedBusinesses
                          threeAttestations ''user_1'' (pageQuery p 2) of
                        Inr resp \<Rightarrow> l_data resp | Inl e \<Rightarrow> [])
             [1, 2]) = rev threeAttestations"
proof -
  let ?resp = "paginate (pageQuery 1 2) (rev threeAttestations)"
  have s: "listQuerySchema (pageQuery 1 2)"
    by (simp add: listQuerySchema_def pageQuery_def)
  have h: "listHandler codeUnitCompare noCapabilities seedBusinesses threeAttestations
             ''user_1'' (pageQuery 1 2) = Inr ?resp"
    by (rule example_listHandler)
  have k: "filter (keepItem (pageQuery 1 2)) (rev threeAttestations) = rev threeAttestations"
    by (simp add: keepItem_def pageQuery_def truthy_def)
  have tp2: "l_totalPages ?resp = 2"
    by (simp add: paginate_def Let_def totalPagesOf_def pageQuery_def threeAttestations_def)
  have u: "[1..<Suc 2] = [1, 2]" by (simp add: upt_rec)
  have pq: "(pageQuery 1 2)\<lparr>q_page := p\<rparr> = pageQuery p 2" for p
    by (simp add: pageQuery_def)
  from pages_concatenate_to_filtered_set[OF s h] obtain bId allItems where
    l: "queryBusinessId (pageQuery 1 2) seedBusinesses ''user_1'' = Some bId"
       "listByBusinessId codeUnitCompare noCapabilities threeAttestations bId = Inr allItems"
    and c: "concat (map (\<lambda>p. l_data (paginate ((pageQuery 1 2)\<lparr>q_page := p\<rparr>)
                      (filter (keepItem (pageQuery 1 2)) allItems)))
                 [1..<Suc (l_totalPages ?resp)])
             = filter (keepItem (pageQuery 1 2)) allItems"
    by blast
  from l(1) have bid: "bId = ''biz_1''"
    by (auto simp: example_queryBusinessId)
  from l(2) have a: "allItems = rev threeAttestations"
    by (simp add: bid example_listByBusinessId)
  from c have "concat (map (\<lambda>p. l_data (paginate (pageQuery p 2) (rev threeAttestations))) [1, 2])
      = rev threeAttestations"
    by (simp only: a k tp2 u pq)
  then have "concat (map (\<lambda>p. case listHandler codeUnitCompare noCapabilities seedBusinesses
                          threeAttestations ''user_1'' (pageQuery p 2) of
                        Inr resp \<Rightarrow> l_data resp | Inl e \<Rightarrow> [])
             [1, 2]) = rev threeAttestations"
    by (simp only: example_listHandler sum.case)
  with s show ?thesis by blast
qed
section \<open>Merkle proofs\<close>

lemma length_nextLevel: "length (nextLevel h level) = (length level + 1) div 2"
  by (induction h level rule: nextLevel.induct) simp_all

lemma nextLevel_nth:
  "index < length level \<Longrightarrow>
   nextLevel h level ! (index div 2) =
     (if odd index then hashNode h (level ! (index - 1)) (level ! index)
      else if index + 1 < length level then hashNode h (level ! index) (level ! (index + 1))
      else level ! index)"
proof (induction h level arbitrary: index rule: nextLevel.induct)
  case (1 h l r rest)
  show ?case
  proof (cases "index < 2")
    case True
    then have "index = 0 \<or> index = 1" by auto
    then show ?thesis by auto
  next
    case False
    then obtain j where j: "index = Suc (Suc j)" by (metis not_less_eq numeral_2_eq_2 less_Suc_eq_0_disj not0_implies_Suc)
    with "1.prems" have jl: "j < length rest" by simp
    have d: "index div 2 = Suc (j div 2)" using j by simp
    have o: "odd index = odd j" using j by simp
    have n: "(r # rest) ! j = rest ! (j - 1)" if "odd j"
      using that by (cases j) auto
    show ?thesis using "1.IH"[OF jl] n by (simp add: d o j)
  qed
next
  case (2 h unmatched)
  then show ?case by simp
next
  case (3 h)
  then show ?case by simp
qed

lemma foldStep_nextLevel:
  assumes "index < length level"
  shows "foldStep h (level ! index)
           (if odd index then Sibling (level ! (index - 1)) OnLeft
            else if index + 1 < length level then Sibling (level ! (index + 1)) OnRight
            else Unmatched)
         = nextLevel h level ! (index div 2)"
  by (simp add: nextLevel_nth[OF assms])

lemma div2_less_nextLevel:
  "index < length level \<Longrightarrow> index div 2 < length (nextLevel h level)"
  by (simp add: length_nextLevel)

lemma buildLevels_nonempty: "buildLevels h level \<noteq> []"
  by (subst buildLevels.simps) simp

lemma fold_proofPath:
  "index < length level \<Longrightarrow>
   [foldl (foldStep h) (level ! index) (proofPath (butlast (buildLevels h level)) index)]
     = last (buildLevels h level)"
proof (induction h level arbitrary: index rule: buildLevels.induct)
  case (1 h level)
  show ?case
  proof (cases "length level \<le> 1")
    case True
    with "1.prems" have "index = 0" "length level = 1" by simp_all
    then obtain x where x: "level = [x]" by (cases level) auto
    show ?thesis using \<open>index = 0\<close> by (subst (1 2) buildLevels.simps) (simp add: x)
  next
    case False
    let ?rest = "buildLevels h (nextLevel h level)"
    have b: "buildLevels h level = level # ?rest"
      using False by (subst buildLevels.simps) simp
    have ne: "?rest \<noteq> []" by (rule buildLevels_nonempty)
    from "1.IH"[OF False div2_less_nextLevel[OF "1.prems"]]
    have ih: "[foldl (foldStep h) (nextLevel h level ! (index div 2))
                 (proofPath (butlast ?rest) (index div 2))] = last ?rest" .
    show ?thesis
      unfolding b using ne ih foldStep_nextLevel[OF "1.prems", of h]
      by (simp del: foldStep.simps)
  qed
qed

lemma length_proofPath: "length (proofPath ls index) = length ls"
  by (induction ls arbitrary: index) simp_all

lemma length_le_pow_height:
  "length level \<le> 2 ^ (length (buildLevels h level) - 1)"
proof (induction h level rule: buildLevels.induct)
  case (1 h level)
  show ?case
  proof (cases "length level \<le> 1")
    case True
    then show ?thesis by (subst buildLevels.simps) simp
  next
    case False
    let ?rest = "buildLevels h (nextLevel h level)"
    have b: "buildLevels h level = level # ?rest"
      using False by (subst buildLevels.simps) simp
    have ne: "?rest \<noteq> []" by (rule buildLevels_nonempty)
    then obtain m where m: "length ?rest = Suc m" by (cases ?rest) simp_all
    from "1.IH"[OF False] have "(length level + 1) div 2 \<le> 2 ^ m"
      by (simp add: length_nextLevel m)
    then have "length level \<le> 2 * 2 ^ m" by linarith
    then show ?thesis unfolding b by (simp add: m)
  qed
qed

text \<open>
  Claim C3. For every non-empty sequence of leaves and every index \<open>i\<close> below its
  length, the tree is built, \<open>getProof(i)\<close> gives a proof, and \<open>verifyProof\<close> of
  the \<open>i\<close>-th leaf, that proof, the tree's root and \<open>i\<close> is true.
\<close>

theorem proof_of_every_leaf_verifies:
  assumes "leaves \<noteq> []" and "i < length leaves"
  shows "\<exists>t steps. Build h leaves = Inr t \<and> getProof t i = Inr steps \<and>
           verifyProof h (leaves ! i) steps (getRoot t) i"
proof -
  let ?level = "map (hashLeaf h) leaves"
  let ?t = "\<lparr>leafCount = length leaves, levels = buildLevels h ?level\<rparr>"
  let ?steps = "proofPath (butlast (buildLevels h ?level)) i"
  have b: "Build h leaves = Inr ?t" using assms(1) by (simp add: Build_def)
  have g: "getProof ?t i = Inr ?steps" using assms(2) by (simp add: getProof_def)
  have il: "i < length ?level" using assms(2) by simp
  have f: "[foldl (foldStep h) (?level ! i) ?steps] = last (buildLevels h ?level)"
    by (rule fold_proofPath[OF il])
  then have r: "getRoot ?t = foldl (foldStep h) (hashLeaf h (leaves ! i)) ?steps"
    using assms(2) by (simp add: getRoot_def flip: f)
  have "length ?level \<le> 2 ^ (length (buildLevels h ?level) - 1)"
    by (rule length_le_pow_height)
  then have "i < 2 ^ length ?steps" using il by (simp add: length_proofPath)
  then have "verifyProof h (leaves ! i) ?steps (getRoot ?t) i"
    by (simp add: verifyProof_def r)
  with b g show ?thesis by blast
qed

lemma example_levels:
  "buildLevels bracketHash (map (hashLeaf bracketHash) fiveLeaves) =
     [[''<La>'', ''<Lb>'', ''<Lc>'', ''<Ld>'', ''<Le>''],
      [''<N<La><Lb>>'', ''<N<Lc><Ld>>'', ''<Le>''],
      [''<N<N<La><Lb>><N<Lc><Ld>>>'', ''<Le>''],
      [''<N<N<N<La><Lb>><N<Lc><Ld>>><Le>>'']]"
  by (simp add: buildLevels.simps fiveLeaves_def hashLeaf_def hashNode_def bracketHash_def)

theorem proof_of_every_leaf_verifies_witness:
  "fiveLeaves \<noteq> [] \<and> 4 < length fiveLeaves \<and>
   (\<exists>t. Build bracketHash fiveLeaves = Inr t \<and>
        getRoot t = ''<N<N<N<La><Lb>><N<Lc><Ld>>><Le>>'' \<and>
        getProof t 4 = Inr [Unmatched, Unmatched, Sibling ''<N<N<La><Lb>><N<Lc><Ld>>>'' OnLeft] \<and>
        verifyProof bracketHash (fiveLeaves ! 4)
          [Unmatched, Unmatched, Sibling ''<N<N<La><Lb>><N<Lc><Ld>>>'' OnLeft]
          ''<N<N<N<La><Lb>><N<Lc><Ld>>><Le>>'' 4)"
proof -
  have ne: "fiveLeaves \<noteq> []" and lt: "4 < length fiveLeaves"
    by (simp_all add: fiveLeaves_def)
  let ?t = "\<lparr>leafCount = 5, levels = buildLevels bracketHash (map (hashLeaf bracketHash) fiveLeaves)\<rparr>"
  have b: "Build bracketHash fiveLeaves = Inr ?t"
    by (simp add: Build_def fiveLeaves_def)
  have r: "getRoot ?t = ''<N<N<N<La><Lb>><N<Lc><Ld>>><Le>>''"
    by (simp add: getRoot_def example_levels)
  have g: "getProof ?t 4 = Inr [Unmatched, Unmatched, Sibling ''<N<N<La><Lb>><N<Lc><Ld>>>'' OnLeft]"
    by (simp add: getProof_def example_levels)
  from proof_of_every_leaf_verifies[OF ne lt, of bracketHash] b g r
  have "verifyProof bracketHash (fiveLeaves ! 4)
          [Unmatched, Unmatched, Sibling ''<N<N<La><Lb>><N<Lc><Ld>>>'' OnLeft]
          ''<N<N<N<La><Lb>><N<Lc><Ld>>><Le>>'' 4"
    by auto
  with ne lt b g r show ?thesis by blast
qed

section \<open>Idempotent submission\<close>

lemma submitHandler_effects:
  assumes "submitHandler repo chain bs env w uid payload = (res, w')"
  shows "length (anchorCalls w') \<le> length (anchorCalls w) + 1 \<and>
         storedRecords w' \<le> storedRecords w + 1 \<and>
         (\<forall>resp. res = Inr resp \<longrightarrow> storedRecords w' = storedRecords w + 1)"
proof (cases "resolveSubmitBusiness bs uid payload")
  case (Inl e)
  with assms show ?thesis by (auto simp: submitHandler_def)
next
  case (Inr bId)
  obtain onChain anchored where
    oc: "submitOnChain chain (pendingUuid env) (anchorParams bId payload env) = (onChain, anchored)"
    by (cases "submitOnChain chain (pendingUuid env) (anchorParams bId payload env)")
  then have a: "length anchored \<le> 1"
    by (auto simp: submitOnChain_def split: chainModule.splits sum.splits)
  obtain saved store' created where
    sv: "saveAttestation repo (localAttestationStore w)
           (newRecord bId payload env (res_txHash onChain)) = (saved, store', created)"
    by (cases "saveAttestation repo (localAttestationStore w)
           (newRecord bId payload env (res_txHash onChain))")
  then have s: "length store' + length created = length (localAttestationStore w) + 1"
    by (auto simp: saveAttestation_def split: option.splits)
  from assms have w': "w' = \<lparr>localAttestationStore = store',
                              anchorCalls = anchorCalls w @ anchored,
                              createCalls = createCalls w @ created\<rparr>"
    by (auto simp: submitHandler_def Inr oc sv Let_def split: sum.splits)
  show ?thesis using a s by (simp add: w' storedRecords_def)
qed

text \<open>
  Claim C2. Of two submit calls with the same idempotency key and payload, one after the
  other, the second gets the result of the first, with the same \<open>txHash\<close>, and
  changes nothing: the anchoring function is called at most once by the two, and one record
  is stored when the key was new and the first call succeeded.
\<close>

theorem submit_is_idempotent_per_key:
  assumes "idempotentSubmit repo chain bs env ttl (entries, w) key uid payload
             = (res1, entries1, w1)"
      and "idempotentSubmit repo2 chain2 bs2 env2 ttl2 (entries1, w1) key uid payload
             = (res2, entries2, w2)"
  shows "res2 = res1 \<and> w2 = w1 \<and> entries2 = entries1 \<and>
         length (anchorCalls w2) \<le> length (anchorCalls w) + 1 \<and>
         storedRecords w2 \<le> storedRecords w + 1 \<and>
         (\<forall>resp. lookupEntry entries ''attestations'' key = None \<longrightarrow> res1 = Inr resp \<longrightarrow>
            storedRecords w2 = storedRecords w + 1 \<and>
            (\<exists>resp2. res2 = Inr resp2 \<and> s_txHash resp2 = s_txHash resp))"
proof -
  have hit: "\<exists>e. lookupEntry entries1 ''attestations'' key = Some e \<and> e_cachedResult e = res1"
  proof (cases "lookupEntry entries ''attestations'' key")
    case (Some e)
    with assms(1) show ?thesis by (auto simp: idempotentSubmit_def)
  next
    case None
    with assms(1) obtain w' where
      "entries1 = entries @ [\<lparr>e_scope = ''attestations'', e_key = key, e_cachedResult = res1,
                               e_expiry = dateNowRecord env + ttl\<rparr>]"
      by (auto simp: idempotentSubmit_def split: prod.splits)
    with None show ?thesis by (simp add: lookupEntry_def find_append')
  qed
  with assms(2) have second: "res2 = res1" "w2 = w1" "entries2 = entries1"
    by (auto simp: idempotentSubmit_def)
  have first: "length (anchorCalls w1) \<le> length (anchorCalls w) + 1 \<and>
         storedRecords w1 \<le> storedRecords w + 1 \<and>
         (lookupEntry entries ''attestations'' key = None \<longrightarrow>
            (\<forall>resp. res1 = Inr resp \<longrightarrow> storedRecords w1 = storedRecords w + 1))"
  proof (cases "lookupEntry entries ''attestations'' key")
    case (Some e)
    with assms(1) have "w1 = w" by (auto simp: idempotentSubmit_def)
    with Some show ?thesis by simp
  next
    case None
    with assms(1) have "submitHandler repo chain bs env w uid payload = (res1, w1)"
      by (auto simp: idempotentSubmit_def split: prod.splits)
    from submitHandler_effects[OF this] show ?thesis by blast
  qed
  from first second show ?thesis by auto
qed

theorem submit_is_idempotent_per_key_witness:
  "\<exists>resp entries1 w1.
     idempotentSubmit noCapabilities workingChain seedBusinesses exampleEnv 86400000
       ([], emptyWorld) ''key-1'' ''user_1'' exampleBody = (Inr resp, entries1, w1) \<and>
     idempotentSubmit noCapabilities workingChain seedBusinesses laterEnv 86400000
       (entries1, w1) ''key-1'' ''user_1'' exampleBody = (Inr resp, entries1, w1) \<and>
     s_txHash resp = ''tx_0xfeed'' \<and> length (anchorCalls w1) = 1 \<and> storedRecords w1 = 1"
proof -
  let ?newRec = "newRecord ''biz_1'' exampleBody exampleEnv ''tx_0xfeed''"
  let ?resp = "\<lparr>s_httpStatus = 201, s_data = ?newRec, s_txHash = ''tx_0xfeed''\<rparr>"
  let ?w1 = "\<lparr>localAttestationStore = [?newRec],
              anchorCalls = [anchorParams ''biz_1'' exampleBody exampleEnv], createCalls = []\<rparr>"
  let ?entries1 = "[\<lparr>e_scope = ''attestations'', e_key = ''key-1'',
                      e_cachedResult = Inr ?resp,
                      e_expiry = dateNowRecord exampleEnv + 86400000\<rparr>]"
  have b: "resolveSubmitBusiness seedBusinesses ''user_1'' exampleBody = Inr ''biz_1''"
    by (simp add: resolveSubmitBusiness_def exampleBody_def truthy_def Let_def
        resolveBusinessIdForUser_def findByUserId_def seedBusinesses_def)
  have oc: "submitOnChain workingChain u (anchorParams ''biz_1'' exampleBody exampleEnv)
              = (\<lparr>res_txHash = ''tx_0xfeed''\<rparr>, [anchorParams ''biz_1'' exampleBody exampleEnv])" for u
    by (simp add: submitOnChain_def workingChain_def anchorParams_def exampleBody_def)
  have h: "submitHandler noCapabilities workingChain seedBusinesses exampleEnv emptyWorld
             ''user_1'' exampleBody = (Inr ?resp, ?w1)"
    by (simp add: submitHandler_def b oc saveAttestation_def noCapabilities_def emptyWorld_def)
  have h1: "idempotentSubmit noCapabilities workingChain seedBusinesses exampleEnv 86400000
       ([], emptyWorld) ''key-1'' ''user_1'' exampleBody = (Inr ?resp, ?entries1, ?w1)"
    by (simp add: idempotentSubmit_def lookupEntry_def h)
  obtain res2 entries2 w2 where
    h2: "idempotentSubmit noCapabilities workingChain seedBusinesses laterEnv 86400000
       (?entries1, ?w1) ''key-1'' ''user_1'' exampleBody = (res2, entries2, w2)"
    by (cases "idempotentSubmit noCapabilities workingChain seedBusinesses laterEnv 86400000
       (?entries1, ?w1) ''key-1'' ''user_1'' exampleBody") blast
  from submit_is_idempotent_per_key[OF h1 h2]
  have e: "res2 = Inr ?resp" "w2 = ?w1" "entries2 = ?entries1" by blast+
  have c: "length (anchorCalls ?w1) = 1" "storedRecords ?w1 = 1" "s_txHash ?resp = ''tx_0xfeed''"
    by (simp_all add: storedRecords_def)
  from h1 h2[unfolded e] c show ?thesis by blast
qed

end
